theory Spec2Isabelle
  imports Complex_Main "HOL-Library.Word" "HOL-Library.Multiset"
begin

unbundle bit_operations_syntax

section \<open>Data model (server/src/types/index.ts)\<close>

text \<open>
  The optimizer works on JavaScript numbers. They are modelled as exact real numbers:
  rounding of IEEE doubles, NaN and the infinities are outside this model. Array
  indices and bit masks are natural numbers or integers; the 32-bit integer operators
  \<^verbatim>\<open><<\<close> and \<^verbatim>\<open>&\<close> are modelled on \<open>32 word\<close>.
\<close>

record CSVRow =
  bigNumber :: real
  smallNumbers :: "real list"

record OptimizationResult =
  selectedNumbers :: "real list"
  sum_result :: real
  originalRow :: CSVRow

text \<open>The anonymous object type \<^verbatim>\<open>{sum: number, subset: number[]}\<close> of csvOptimizer.ts.\<close>

record SubsetSum =
  sum_entry :: real
  subset_entry :: "real list"

text \<open>
  The only runtime error the optimizer's code can raise: reading a property of
  \<^verbatim>\<open>undefined\<close>, which is what an array read out of range yields.
\<close>

datatype error = TypeError

section \<open>generateAllSubsetSums\<close>

text \<open>
  \<^verbatim>\<open>1 << n\<close>: the shift count is taken modulo 32 and the result is a signed 32-bit
  integer.
\<close>

definition shl1 :: "nat \<Rightarrow> int" where
  "shl1 n = sint (push_bit (n mod 32) (1 :: 32 word))"

text \<open>\<^verbatim>\<open>mask & (1 << i)\<close> used as a condition: true when the 32-bit result is not zero.\<close>

definition mask_and :: "nat \<Rightarrow> nat \<Rightarrow> bool" where
  "mask_and msk i \<longleftrightarrow> (word_of_nat msk :: 32 word) AND push_bit (i mod 32) 1 \<noteq> 0"

text \<open>The inner loop \<^verbatim>\<open>for (let i = 0; i < n; i++)\<close> with its state \<open>(subset, sum)\<close>.\<close>

function subset_loop :: "real list \<Rightarrow> nat \<Rightarrow> nat \<Rightarrow> real list \<times> real \<Rightarrow> real list \<times> real" where
  "subset_loop numbers msk i (subs, sm) =
     (if i < length numbers then
        (if mask_and msk i
         then subset_loop numbers msk (i + 1) (subs @ [numbers ! i], sm + numbers ! i)
         else subset_loop numbers msk (i + 1) (subs, sm))
      else (subs, sm))"
  by pat_completeness auto
termination
  by (relation "measure (\<lambda>(numbers, msk, i, st). length numbers - i)") auto

declare subset_loop.simps [simp del]

text \<open>The outer loop \<^verbatim>\<open>for (let mask = 0; mask < (1 << n); mask++)\<close>, pushing to \<open>result\<close>.\<close>

function mask_loop :: "real list \<Rightarrow> nat \<Rightarrow> SubsetSum list \<Rightarrow> SubsetSum list" where
  "mask_loop numbers msk result =
     (if int msk < shl1 (length numbers) then
        (case subset_loop numbers msk 0 ([], 0) of
           (subs, sm) \<Rightarrow>
             mask_loop numbers (msk + 1) (result @ [\<lparr>sum_entry = sm, subset_entry = subs\<rparr>]))
      else result)"
  by pat_completeness auto
termination
  by (relation "measure (\<lambda>(numbers, msk, result). nat (shl1 (length numbers) - int msk))") auto

declare mask_loop.simps [simp del]

definition generateAllSubsetSums :: "real list \<Rightarrow> SubsetSum list" where
  "generateAllSubsetSums numbers = mask_loop numbers 0 []"

section \<open>findBestSum\<close>

text \<open>
  \<^verbatim>\<open>sortedSums[i].sum\<close> and the final \<^verbatim>\<open>sortedSums[bestIndex]\<close>, whose result the caller
  dereferences: out of range the read yields \<^verbatim>\<open>undefined\<close> and the property access
  raises.
\<close>

definition at_index :: "SubsetSum list \<Rightarrow> int \<Rightarrow> error + SubsetSum" where
  "at_index sortedSums i =
     (if 0 \<le> i \<and> i < int (length sortedSums) then Inr (sortedSums ! nat i) else Inl TypeError)"

text \<open>The binary search loop \<^verbatim>\<open>while (left <= right)\<close> with its state \<open>(left, right, bestIndex)\<close>.\<close>

function search_loop :: "SubsetSum list \<Rightarrow> real \<Rightarrow> int \<Rightarrow> int \<Rightarrow> int \<Rightarrow> error + int" where
  "search_loop sortedSums target left right bestIndex =
     (if left \<le> right then
        (case at_index sortedSums ((left + right) div 2) of
           Inl e \<Rightarrow> Inl e
         | Inr entry \<Rightarrow>
             if sum_entry entry \<le> target
             then search_loop sortedSums target ((left + right) div 2 + 1) right ((left + right) div 2)
             else search_loop sortedSums target left ((left + right) div 2 - 1) bestIndex)
      else Inr bestIndex)"
  by pat_completeness auto
termination
  by (relation "measure (\<lambda>(sortedSums, target, left, right, bestIndex). nat (right - left + 1))")
    auto

declare search_loop.simps [simp del]

definition findBestSum :: "SubsetSum list \<Rightarrow> real \<Rightarrow> error + SubsetSum" where
  "findBestSum sortedSums target =
     (if length sortedSums = 0 then Inr \<lparr>sum_entry = 0, subset_entry = []\<rparr>
      else
        (case search_loop sortedSums target 0 (int (length sortedSums) - 1) 0 of
           Inl e \<Rightarrow> Inl e
         | Inr bestIndex \<Rightarrow> at_index sortedSums bestIndex))"

section \<open>findOptimalSubset\<close>

text \<open>
  The combination loop \<^verbatim>\<open>for (const leftSum of leftSums)\<close> with its state
  \<open>(bestSum, bestCombination)\<close>.
\<close>

fun combine_loop ::
  "SubsetSum list \<Rightarrow> real \<Rightarrow> SubsetSum list \<Rightarrow> real \<times> real list \<Rightarrow> error + real \<times> real list" where
  "combine_loop rightSums target [] (bestSum, bestCombination) = Inr (bestSum, bestCombination)"
| "combine_loop rightSums target (leftSum # leftSums) (bestSum, bestCombination) =
     (if sum_entry leftSum > target
      then combine_loop rightSums target leftSums (bestSum, bestCombination)
      else
        (case findBestSum rightSums (target - sum_entry leftSum) of
           Inl e \<Rightarrow> Inl e
         | Inr bestRightSum \<Rightarrow>
             if sum_entry leftSum + sum_entry bestRightSum \<le> target
                \<and> sum_entry leftSum + sum_entry bestRightSum > bestSum
             then combine_loop rightSums target leftSums
                    (sum_entry leftSum + sum_entry bestRightSum,
                     subset_entry leftSum @ subset_entry bestRightSum)
             else combine_loop rightSums target leftSums (bestSum, bestCombination)))"

text \<open>
  What one iteration of the combination loop offers for a left entry: the total and the
  concatenated subset, when the entry passes both guards of the loop body.
\<close>

definition offered :: "SubsetSum list \<Rightarrow> real \<Rightarrow> SubsetSum \<Rightarrow> (real \<times> real list) option" where
  "offered rightSums target leftSum =
     (if sum_entry leftSum > target then None
      else
        (case findBestSum rightSums (target - sum_entry leftSum) of
           Inl e \<Rightarrow> None
         | Inr bestRightSum \<Rightarrow>
             if sum_entry leftSum + sum_entry bestRightSum \<le> target
             then Some (sum_entry leftSum + sum_entry bestRightSum,
                        subset_entry leftSum @ subset_entry bestRightSum)
             else None))"

text \<open>
  \<^verbatim>\<open>rightSums.sort((a, b) => a.sum - b.sum)\<close> is the sort by the key \<open>sum\<close>, stable as
  ECMAScript 2019 requires of \<^verbatim>\<open>Array.prototype.sort\<close>; \<^verbatim>\<open>slice(0, mid)\<close> and \<^verbatim>\<open>slice(mid)\<close>
  are \<open>take\<close> and \<open>drop\<close>.
\<close>

definition findOptimalSubset :: "real list \<Rightarrow> real \<Rightarrow> error + real list" where
  "findOptimalSubset numbers target =
     (if length numbers = 0 then Inr []
      else if length numbers = 1 then Inr (if numbers ! 0 \<le> target then numbers else [])
      else
        (let mid = length numbers div 2;
             left = take mid numbers;
             right = drop mid numbers;
             leftSums = generateAllSubsetSums left;
             rightSums = sort_key sum_entry (generateAllSubsetSums right)
         in case combine_loop rightSums target leftSums (0, []) of
              Inl e \<Rightarrow> Inl e
            | Inr (bestSum, bestCombination) \<Rightarrow> Inr (sort bestCombination)))"

section \<open>optimizeRow, optimizeAllRows, validateRow\<close>

definition optimizeRow :: "CSVRow \<Rightarrow> error + OptimizationResult" where
  "optimizeRow row =
     (if length (smallNumbers row) = 0
      then Inr \<lparr>selectedNumbers = [], sum_result = 0, originalRow = row\<rparr>
      else
        (case findOptimalSubset (smallNumbers row) (bigNumber row) of
           Inl e \<Rightarrow> Inl e
         | Inr result \<Rightarrow>
             Inr \<lparr>selectedNumbers = result,
                  sum_result = foldl (\<lambda>sm num. sm + num) 0 result,
                  originalRow = row\<rparr>))"

text \<open>\<^verbatim>\<open>rows.map(row => this.optimizeRow(row))\<close>: an exception in one call ends the map.\<close>

fun optimizeAllRows :: "CSVRow list \<Rightarrow> error + OptimizationResult list" where
  "optimizeAllRows [] = Inr []"
| "optimizeAllRows (row # rows) =
     (case optimizeRow row of
        Inl e \<Rightarrow> Inl e
      | Inr r \<Rightarrow> (case optimizeAllRows rows of Inl e \<Rightarrow> Inl e | Inr rs \<Rightarrow> Inr (r # rs)))"


section \<open>optimizeRow on a store\<close>

text \<open>
  The functions above pass arrays by value. To say which arrays a call changes, the same
  code is modelled again on a store: arrays live at addresses, a new array is appended
  to the store, and \<^verbatim>\<open>push\<close> and \<^verbatim>\<open>sort\<close> update the array at an address in place and are
  recorded in a log. Arrays of numbers, arrays of \<^verbatim>\<open>{sum, subset}\<close> objects and row objects
  have their own address spaces, since no variable of the code holds more than one of
  these types. An address is always that of an allocated object in the code; here an
  address outside the store reads as the empty array.
\<close>

type_synonym addr = nat

record SubsetSumObj =
  sum_obj :: real
  subset_obj :: addr

record CSVRowObj =
  bigNumber_obj :: real
  smallNumbers_obj :: addr


record heap =
  number_arrays :: "real list list"
  sum_arrays :: "SubsetSumObj list list"
  row_objects :: "CSVRowObj list"
  mutated_numbers :: "addr list"
  mutated_sums :: "addr list"


definition sums_at :: "heap \<Rightarrow> addr \<Rightarrow> SubsetSumObj list" where
  "sums_at h a = (if a < length (sum_arrays h) then sum_arrays h ! a else [])"
















text \<open>
  What a call leaves alone: every array and row object of the store before the call is
  still there, unchanged, at its address, and every array the call pushed to or sorted
  was created by the call.
\<close>

definition frame :: "heap \<Rightarrow> heap \<Rightarrow> bool" where
  "frame h h' \<longleftrightarrow>
     take (length (number_arrays h)) (number_arrays h') = number_arrays h
     \<and> take (length (sum_arrays h)) (sum_arrays h') = sum_arrays h
     \<and> row_objects h' = row_objects h
     \<and> take (length (mutated_numbers h)) (mutated_numbers h') = mutated_numbers h
     \<and> list_all (\<lambda>a. length (number_arrays h) \<le> a)
          (drop (length (mutated_numbers h)) (mutated_numbers h'))
     \<and> take (length (mutated_sums h)) (mutated_sums h') = mutated_sums h
     \<and> list_all (\<lambda>a. length (sum_arrays h) \<le> a)
          (drop (length (mutated_sums h)) (mutated_sums h'))"

section \<open>The enumeration of subset sums\<close>

lemma shl1_small: "n \<le> 30 \<Longrightarrow> shl1 n = 2 ^ n"
proof -
  assume n: "n \<le> 30"
  have "(2::int) ^ n < 2 ^ 31"
    by (rule power_strict_increasing) (use n in simp_all)
  moreover have "- (2 ^ 31) \<le> (2::int) ^ n"
    by (rule order_trans[of _ 0]) simp_all
  ultimately have t: "signed_take_bit 31 ((2::int) ^ n) = 2 ^ n"
    by (rule signed_take_bit_int_eq_self[rotated])
  have "shl1 n = sint (word_of_int (2 ^ n) :: 32 word)"
    using n by (simp add: shl1_def)
  also have "\<dots> = signed_take_bit 31 ((2::int) ^ n)"
    by (subst sint_sbintrunc') simp
  finally show ?thesis
    using t by simp
qed

lemma mask_and_bit: "i < 32 \<Longrightarrow> mask_and msk i \<longleftrightarrow> bit msk i"
  unfolding mask_and_def bit_iff_and_push_bit_not_eq_0[symmetric]
  by (simp add: bit_of_nat_iff)

lemma filter_upt_nths: "map (nth xs) (filter P [0..<length xs]) = nths xs {i. P i}"
proof (induction xs rule: rev_induct)
  case Nil
  then show ?case by simp
next
  case (snoc x xs)
  have "map (nth (xs @ [x])) (filter P [0..<length xs]) = map (nth xs) (filter P [0..<length xs])"
    by (rule map_cong) (auto simp: nth_append)
  with snoc show ?case
    by (simp add: nths_append)
qed

lemma subset_loop_eq:
  "subset_loop numbers msk i (subs, sm) =
     (subs @ map (nth numbers) (filter (mask_and msk) [i..<length numbers]),
      sm + sum_list (map (nth numbers) (filter (mask_and msk) [i..<length numbers])))"
proof (induction numbers msk i "(subs, sm)" arbitrary: subs sm rule: subset_loop.induct)
  case (1 numbers msk i subs sm)
  show ?case
  proof (cases "i < length numbers")
    case True
    then have u: "[i..<length numbers] = i # [i + 1..<length numbers]"
      by (simp add: upt_conv_Cons)
    show ?thesis
      using True 1 by (subst subset_loop.simps) (simp add: u)
  next
    case False
    then show ?thesis
      by (subst subset_loop.simps) simp
  qed
qed

lemma mask_loop_eq:
  "mask_loop numbers msk result =
     result @ map (\<lambda>m. \<lparr>sum_entry = snd (subset_loop numbers m 0 ([], 0)),
                         subset_entry = fst (subset_loop numbers m 0 ([], 0))\<rparr>)
                  [msk..<nat (shl1 (length numbers))]"
proof (induction numbers msk result rule: mask_loop.induct)
  case (1 numbers msk result)
  show ?case
  proof (cases "int msk < shl1 (length numbers)")
    case True
    then have u: "[msk..<nat (shl1 (length numbers))]
        = msk # [msk + 1..<nat (shl1 (length numbers))]"
      by (simp add: upt_conv_Cons)
    obtain subs sm where s: "subset_loop numbers msk 0 ([], 0) = (subs, sm)"
      by (cases "subset_loop numbers msk 0 ([], 0)")
    show ?thesis
      using True 1[OF True s[symmetric]] s by (subst mask_loop.simps) (simp add: u)
  next
    case False
    then show ?thesis
      by (subst mask_loop.simps) simp
  qed
qed

text \<open>
  Whatever the length of the input, every entry's sum is the sum of its subset, and its
  subset is read from the input at increasing indices.
\<close>

lemma generateAllSubsetSums_any:
  "generateAllSubsetSums numbers =
     map (\<lambda>m. \<lparr>sum_entry = sum_list (nths numbers {i. mask_and m i}),
                 subset_entry = nths numbers {i. mask_and m i}\<rparr>)
       [0..<nat (shl1 (length numbers))]"
  by (simp add: generateAllSubsetSums_def mask_loop_eq subset_loop_eq filter_upt_nths)

lemma nths_mask_and:
  assumes "length numbers \<le> 30"
  shows "nths numbers {i. mask_and m i} = nths numbers {i. bit m i}"
proof -
  have "nths numbers {i. mask_and m i} = map (nth numbers) (filter (mask_and m) [0..<length numbers])"
    by (simp add: filter_upt_nths)
  also have "filter (mask_and m) [0..<length numbers] = filter (bit m) [0..<length numbers]"
    by (rule filter_cong) (use assms in \<open>auto simp: mask_and_bit\<close>)
  finally show ?thesis
    by (simp add: filter_upt_nths)
qed

lemma generateAllSubsetSums_small:
  assumes "length numbers \<le> 30"
  shows "generateAllSubsetSums numbers =
     map (\<lambda>m. \<lparr>sum_entry = sum_list (nths numbers {i. bit m i}),
                 subset_entry = nths numbers {i. bit m i}\<rparr>)
       [0..<2 ^ length numbers]"
proof -
  have "nat (shl1 (length numbers)) = 2 ^ length numbers"
    using assms by (simp add: shl1_small nat_power_eq)
  then show ?thesis
    unfolding generateAllSubsetSums_any using assms by (simp only: nths_mask_and)
qed

section \<open>Index sets, bit masks and sub-multisets\<close>


lemma sum_list_nths:
  fixes xs :: "real list"
  shows "sum_list (nths xs A) = (\<Sum>i | i < length xs \<and> i \<in> A. xs ! i)"
proof (induction xs rule: rev_induct)
  case Nil
  then show ?case by simp
next
  case (snoc x xs)
  let ?n = "length xs"
  have split: "{i. i < Suc ?n \<and> i \<in> A} = {i. i < ?n \<and> i \<in> A} \<union> (if ?n \<in> A then {?n} else {})"
    by (auto simp: less_Suc_eq)
  have old: "(\<Sum>i | i < ?n \<and> i \<in> A. (xs @ [x]) ! i) = (\<Sum>i | i < ?n \<and> i \<in> A. xs ! i)"
    by (rule sum.cong) (auto simp: nth_append)
  have k: "nths [x] {j. j + ?n \<in> A} = (if ?n \<in> A then [x] else [])"
    by (simp add: nths_Cons)
  show ?case
    using snoc old by (simp add: nths_append k split)
qed



section \<open>The binary search\<close>

text \<open>The search stays inside the array: it never raises, and its result is an index.\<close>

lemma search_loop_in_range:
  assumes "0 \<le> left" "right < int (length sortedSums)"
    "0 \<le> bestIndex" "bestIndex < int (length sortedSums)"
  shows "\<exists>b. search_loop sortedSums target left right bestIndex = Inr b
            \<and> 0 \<le> b \<and> b < int (length sortedSums)"
  using assms
proof (induction sortedSums target left right bestIndex rule: search_loop.induct)
  case (1 sortedSums target left right bestIndex)
  let ?mid = "(left + right) div 2"
  show ?case
  proof (cases "left \<le> right")
    case False
    then show ?thesis
      using "1.prems" by (subst search_loop.simps) simp
  next
    case True
    then have mid: "left \<le> ?mid" "?mid \<le> right"
      by linarith+
    then have at: "at_index sortedSums ?mid = Inr (sortedSums ! nat ?mid)"
      using "1.prems" by (simp add: at_index_def)
    show ?thesis
    proof (cases "sum_entry (sortedSums ! nat ?mid) \<le> target")
      case le: True
      have "\<exists>b. search_loop sortedSums target (?mid + 1) right ?mid = Inr b
            \<and> 0 \<le> b \<and> b < int (length sortedSums)"
        using "1.prems" mid by (intro "1.IH"(1)[OF True at le]) linarith+
      then show ?thesis
        using True at le by (subst search_loop.simps) simp
    next
      case gt: False
      have "\<exists>b. search_loop sortedSums target left (?mid - 1) bestIndex = Inr b
            \<and> 0 \<le> b \<and> b < int (length sortedSums)"
        using "1.prems" mid by (intro "1.IH"(2)[OF True at gt]) linarith+
      then show ?thesis
        using True at gt by (subst search_loop.simps) simp
    qed
  qed
qed

lemma findBestSum_returns:
  "\<exists>r. findBestSum sortedSums target = Inr r
       \<and> (r \<in> set sortedSums \<or> sortedSums = [] \<and> r = \<lparr>sum_entry = 0, subset_entry = []\<rparr>)"
proof (cases "sortedSums = []")
  case True
  then show ?thesis
    by (simp add: findBestSum_def)
next
  case False
  then have "\<exists>b. search_loop sortedSums target 0 (int (length sortedSums) - 1) 0 = Inr b
            \<and> 0 \<le> b \<and> b < int (length sortedSums)"
    by (intro search_loop_in_range) simp_all
  then obtain b where b: "search_loop sortedSums target 0 (int (length sortedSums) - 1) 0 = Inr b"
    "0 \<le> b" "b < int (length sortedSums)"
    by blast
  then have "nat b < length sortedSums"
    by linarith
  then have "sortedSums ! nat b \<in> set sortedSums"
    by (rule nth_mem)
  then show ?thesis
    using False b by (simp add: findBestSum_def at_index_def)
qed

lemma sorted_sum_entry_nth:
  "sorted (map sum_entry xs) \<Longrightarrow> i \<le> j \<Longrightarrow> j < length xs
     \<Longrightarrow> sum_entry (xs ! i) \<le> sum_entry (xs ! j)"
  using sorted_nth_mono[of "map sum_entry xs" i j] by simp

text \<open>
  On a list sorted by sum the search returns the last index whose sum is at most the
  target, and index 0 when there is none.
\<close>

lemma search_loop_sorted:
  assumes "sorted (map sum_entry sortedSums)"
    "0 \<le> left" "left \<le> right + 1" "right < int (length sortedSums)"
    "\<forall>i < length sortedSums. int i < left \<longrightarrow> sum_entry (sortedSums ! i) \<le> target"
    "\<forall>i < length sortedSums. right < int i \<longrightarrow> target < sum_entry (sortedSums ! i)"
    "bestIndex = (if left = 0 then 0 else left - 1)"
  shows "\<exists>b. search_loop sortedSums target left right bestIndex = Inr b
            \<and> ((\<forall>i < length sortedSums. target < sum_entry (sortedSums ! i)) \<and> b = 0
                \<or> 0 \<le> b \<and> b < int (length sortedSums)
                  \<and> (\<forall>i < length sortedSums. int i \<le> b \<longrightarrow> sum_entry (sortedSums ! i) \<le> target)
                  \<and> (\<forall>i < length sortedSums. b < int i \<longrightarrow> target < sum_entry (sortedSums ! i)))"
  using assms
proof (induction sortedSums target left right bestIndex rule: search_loop.induct)
  case (1 sortedSums target left right bestIndex)
  let ?mid = "(left + right) div 2"
  let ?n = "length sortedSums"
  have mono: "sum_entry (sortedSums ! i) \<le> sum_entry (sortedSums ! j)" if "i \<le> j" "j < ?n" for i j
    using "1.prems"(1) that by (rule sorted_sum_entry_nth)
  show ?case
  proof (cases "left \<le> right")
    case False
    then have eq: "left = right + 1"
      using "1.prems"(3) by linarith
    have res: "search_loop sortedSums target left right bestIndex = Inr bestIndex"
      using False by (subst search_loop.simps) simp
    show ?thesis
    proof (cases "left = 0")
      case True
      then have "\<forall>i < ?n. target < sum_entry (sortedSums ! i)"
        using "1.prems"(6) eq by simp
      then show ?thesis
        using res True "1.prems"(7) by simp
    next
      case nz: False
      then have "bestIndex = right" "0 \<le> right"
        using "1.prems"(2,7) eq by simp_all
      then show ?thesis
        using res "1.prems"(4,5,6) eq by simp
    qed
  next
    case True
    then have mid: "left \<le> ?mid" "?mid \<le> right"
      by linarith+
    then have midn: "nat ?mid < ?n" "0 \<le> ?mid"
      using "1.prems"(2,4) by linarith+
    then have at: "at_index sortedSums ?mid = Inr (sortedSums ! nat ?mid)"
      using "1.prems" mid by (simp add: at_index_def)
    show ?thesis
    proof (cases "sum_entry (sortedSums ! nat ?mid) \<le> target")
      case le: True
      have below: "\<forall>i < ?n. int i < ?mid + 1 \<longrightarrow> sum_entry (sortedSums ! i) \<le> target"
      proof (intro allI impI)
        fix i assume "i < ?n" "int i < ?mid + 1"
        then have "i \<le> nat ?mid" by linarith
        then have "sum_entry (sortedSums ! i) \<le> sum_entry (sortedSums ! nat ?mid)"
          using midn(1) by (rule mono)
        then show "sum_entry (sortedSums ! i) \<le> target"
          using le by linarith
      qed
      have "\<exists>b. search_loop sortedSums target (?mid + 1) right ?mid = Inr b
            \<and> ((\<forall>i < ?n. target < sum_entry (sortedSums ! i)) \<and> b = 0
                \<or> 0 \<le> b \<and> b < int ?n
                  \<and> (\<forall>i < ?n. int i \<le> b \<longrightarrow> sum_entry (sortedSums ! i) \<le> target)
                  \<and> (\<forall>i < ?n. b < int i \<longrightarrow> target < sum_entry (sortedSums ! i)))"
      proof (rule "1.IH"(1)[OF True at le])
        show "sorted (map sum_entry sortedSums)" by (rule "1.prems"(1))
        show "0 \<le> ?mid + 1" using midn(2) by linarith
        show "?mid + 1 \<le> right + 1" using mid(2) by linarith
        show "right < int ?n" by (rule "1.prems"(4))
        show "\<forall>i < ?n. int i < ?mid + 1 \<longrightarrow> sum_entry (sortedSums ! i) \<le> target" by (rule below)
        show "\<forall>i < ?n. right < int i \<longrightarrow> target < sum_entry (sortedSums ! i)" by (rule "1.prems"(6))
        show "?mid = (if ?mid + 1 = 0 then 0 else ?mid + 1 - 1)" using midn(2) by simp
      qed
      then show ?thesis
        using True at le by (subst search_loop.simps) simp
    next
      case gt: False
      have above: "\<forall>i < ?n. ?mid - 1 < int i \<longrightarrow> target < sum_entry (sortedSums ! i)"
      proof (intro allI impI)
        fix i assume i: "i < ?n" "?mid - 1 < int i"
        then have "nat ?mid \<le> i" by linarith
        then have "sum_entry (sortedSums ! nat ?mid) \<le> sum_entry (sortedSums ! i)"
          using i(1) by (rule mono)
        then show "target < sum_entry (sortedSums ! i)"
          using gt by linarith
      qed
      have "\<exists>b. search_loop sortedSums target left (?mid - 1) bestIndex = Inr b
            \<and> ((\<forall>i < ?n. target < sum_entry (sortedSums ! i)) \<and> b = 0
                \<or> 0 \<le> b \<and> b < int ?n
                  \<and> (\<forall>i < ?n. int i \<le> b \<longrightarrow> sum_entry (sortedSums ! i) \<le> target)
                  \<and> (\<forall>i < ?n. b < int i \<longrightarrow> target < sum_entry (sortedSums ! i)))"
      proof (rule "1.IH"(2)[OF True at gt])
        show "sorted (map sum_entry sortedSums)" by (rule "1.prems"(1))
        show "0 \<le> left" by (rule "1.prems"(2))
        show "left \<le> ?mid - 1 + 1" using mid(1) by linarith
        show "?mid - 1 < int ?n" using midn(1) by linarith
        show "\<forall>i < ?n. int i < left \<longrightarrow> sum_entry (sortedSums ! i) \<le> target" by (rule "1.prems"(5))
        show "\<forall>i < ?n. ?mid - 1 < int i \<longrightarrow> target < sum_entry (sortedSums ! i)" by (rule above)
        show "bestIndex = (if left = 0 then 0 else left - 1)" by (rule "1.prems"(7))
      qed
      then show ?thesis
        using True at gt by (subst search_loop.simps) simp
    qed
  qed
qed


text \<open>When no entry of a non-empty sorted list qualifies, the first entry is returned.\<close>

lemma findBestSum_sorted_none:
  assumes "sorted (map sum_entry sortedSums)" "sortedSums \<noteq> []"
    and "\<forall>q \<in> set sortedSums. target < sum_entry q"
  shows "findBestSum sortedSums target = Inr (sortedSums ! 0)"
proof -
  let ?n = "length sortedSums"
  have "\<exists>b. search_loop sortedSums target 0 (int ?n - 1) 0 = Inr b
            \<and> ((\<forall>i < ?n. target < sum_entry (sortedSums ! i)) \<and> b = 0
                \<or> 0 \<le> b \<and> b < int ?n
                  \<and> (\<forall>i < ?n. int i \<le> b \<longrightarrow> sum_entry (sortedSums ! i) \<le> target)
                  \<and> (\<forall>i < ?n. b < int i \<longrightarrow> target < sum_entry (sortedSums ! i)))"
    using assms(1,2) by (intro search_loop_sorted) simp_all
  then obtain b where b: "search_loop sortedSums target 0 (int ?n - 1) 0 = Inr b"
    and d: "(\<forall>i < ?n. target < sum_entry (sortedSums ! i)) \<and> b = 0
                \<or> 0 \<le> b \<and> b < int ?n
                  \<and> (\<forall>i < ?n. int i \<le> b \<longrightarrow> sum_entry (sortedSums ! i) \<le> target)
                  \<and> (\<forall>i < ?n. b < int i \<longrightarrow> target < sum_entry (sortedSums ! i))"
    by blast
  have "b = 0"
  proof (rule ccontr)
    assume "b \<noteq> 0"
    with d have "0 \<le> b" "b < int ?n" "sum_entry (sortedSums ! nat b) \<le> target"
      by auto
    moreover have "target < sum_entry (sortedSums ! nat b)"
      using assms(3) calculation(1,2) by (intro bspec[OF assms(3)] nth_mem) linarith
    ultimately show False by linarith
  qed
  then show ?thesis
    using b assms(2) by (simp add: findBestSum_def at_index_def)
qed

section \<open>The optimizer never raises\<close>

lemma combine_loop_returns:
  "\<exists>st'. combine_loop rightSums target leftSums st = Inr st'"
proof (induction leftSums arbitrary: st)
  case Nil
  then show ?case by (cases st) simp
next
  case (Cons leftSum leftSums)
  obtain bestSum bestCombination where st: "st = (bestSum, bestCombination)"
    by (cases st)
  obtain r where r: "findBestSum rightSums (target - sum_entry leftSum) = Inr r"
    using findBestSum_returns by blast
  show ?case
    using Cons.IH by (simp add: st r)
qed

lemma findOptimalSubset_returns: "\<exists>result. findOptimalSubset numbers target = Inr result"
proof -
  let ?rs = "sort_key sum_entry (generateAllSubsetSums (drop (length numbers div 2) numbers))"
  let ?ls = "generateAllSubsetSums (take (length numbers div 2) numbers)"
  obtain st where "combine_loop ?rs target ?ls (0, []) = Inr st"
    using combine_loop_returns by blast
  then show ?thesis
    by (cases st) (simp add: findOptimalSubset_def Let_def)
qed

lemma optimizeRow_returns: "\<exists>r. optimizeRow row = Inr r \<and> originalRow r = row"
proof -
  obtain result where "findOptimalSubset (smallNumbers row) (bigNumber row) = Inr result"
    using findOptimalSubset_returns by blast
  then show ?thesis
    by (simp add: optimizeRow_def)
qed

lemma optimizeAllRows_map:
  "\<exists>rs. optimizeAllRows rows = Inr rs \<and> map Inr rs = map optimizeRow rows"
proof (induction rows)
  case Nil
  then show ?case by simp
next
  case (Cons row rows)
  obtain r where r: "optimizeRow row = Inr r"
    using optimizeRow_returns by blast
  obtain rs where rs: "optimizeAllRows rows = Inr rs" "map Inr rs = map optimizeRow rows"
    using Cons.IH by blast
  show ?case
    by (simp add: r rs)
qed

section \<open>The combination loop\<close>

lemma combine_loop_step:
  "combine_loop rightSums target (leftSum # leftSums) (bestSum, bestCombination) =
     combine_loop rightSums target leftSums
       (case offered rightSums target leftSum of
          None \<Rightarrow> (bestSum, bestCombination)
        | Some (totalSum, combination) \<Rightarrow>
            if totalSum > bestSum then (totalSum, combination) else (bestSum, bestCombination))"
proof -
  obtain r where r: "findBestSum rightSums (target - sum_entry leftSum) = Inr r"
    using findBestSum_returns by blast
  show ?thesis
    by (simp add: offered_def r)
qed

lemma combine_loop_first_max:
  assumes "combine_loop rightSums target leftSums (bestSum0, bestCombination0)
             = Inr (bestSum, bestCombination)"
  shows "bestSum = bestSum0 \<and> bestCombination = bestCombination0
           \<and> (\<forall>j < length leftSums. \<forall>tot comb.
                 offered rightSums target (leftSums ! j) = Some (tot, comb) \<longrightarrow> tot \<le> bestSum0)
         \<or> (\<exists>i < length leftSums.
               offered rightSums target (leftSums ! i) = Some (bestSum, bestCombination)
               \<and> bestSum0 < bestSum
               \<and> (\<forall>j < i. \<forall>tot comb.
                     offered rightSums target (leftSums ! j) = Some (tot, comb) \<longrightarrow> tot < bestSum)
               \<and> (\<forall>j < length leftSums. \<forall>tot comb.
                     offered rightSums target (leftSums ! j) = Some (tot, comb) \<longrightarrow> tot \<le> bestSum))"
  using assms
proof (induction leftSums arbitrary: bestSum0 bestCombination0)
  case Nil
  then show ?case by simp
next
  case (Cons leftSum leftSums)
  let ?off = "offered rightSums target"
  define st where "st = (case ?off leftSum of
          None \<Rightarrow> (bestSum0, bestCombination0)
        | Some (totalSum, combination) \<Rightarrow>
            if totalSum > bestSum0 then (totalSum, combination) else (bestSum0, bestCombination0))"
  obtain b1 c1 where st1: "st = (b1, c1)"
    by (cases st)
  have run: "combine_loop rightSums target leftSums (b1, c1) = Inr (bestSum, bestCombination)"
    using Cons.prems by (simp only: combine_loop_step flip: st_def st1)
  have mono: "bestSum0 \<le> b1"
    using st1 by (auto simp: st_def split: option.splits if_splits)
  have head: "tot \<le> b1" if "?off leftSum = Some (tot, comb)" for tot comb
    using st1 that by (auto simp: st_def split: if_splits)
  have kept: "b1 = bestSum0 \<and> c1 = bestCombination0 \<or> ?off leftSum = Some (b1, c1) \<and> bestSum0 < b1"
    using st1 by (auto simp: st_def split: option.splits if_splits)
  from Cons.IH[OF run] show ?case
  proof (elim disjE conjE exE)
    assume same: "bestSum = b1" "bestCombination = c1"
      and rest: "\<forall>j < length leftSums. \<forall>tot comb. ?off (leftSums ! j) = Some (tot, comb) \<longrightarrow> tot \<le> b1"
    have all: "\<forall>j < length (leftSum # leftSums). \<forall>tot comb.
        ?off ((leftSum # leftSums) ! j) = Some (tot, comb) \<longrightarrow> tot \<le> b1"
      using head rest by (auto simp: nth_Cons split: nat.splits)
    from kept show ?thesis
    proof
      assume "b1 = bestSum0 \<and> c1 = bestCombination0"
      then show ?thesis
        using same all by simp
    next
      assume "?off leftSum = Some (b1, c1) \<and> bestSum0 < b1"
      then have "?off ((leftSum # leftSums) ! 0) = Some (bestSum, bestCombination)
          \<and> bestSum0 < bestSum \<and> (0::nat) < length (leftSum # leftSums)"
        using same by simp
      then show ?thesis
        using all same by blast
    qed
  next
    fix i
    assume i: "i < length leftSums" "?off (leftSums ! i) = Some (bestSum, bestCombination)"
      "b1 < bestSum"
      and before: "\<forall>j < i. \<forall>tot comb. ?off (leftSums ! j) = Some (tot, comb) \<longrightarrow> tot < bestSum"
      and rest: "\<forall>j < length leftSums. \<forall>tot comb. ?off (leftSums ! j) = Some (tot, comb) \<longrightarrow> tot \<le> bestSum"
    have "Suc i < length (leftSum # leftSums)"
      using i(1) by simp
    moreover have "?off ((leftSum # leftSums) ! Suc i) = Some (bestSum, bestCombination)"
      using i(2) by simp
    moreover have "bestSum0 < bestSum"
      using mono i(3) by linarith
    moreover have "\<forall>j < Suc i. \<forall>tot comb.
        ?off ((leftSum # leftSums) ! j) = Some (tot, comb) \<longrightarrow> tot < bestSum"
      using head before i(3) by (fastforce simp: nth_Cons split: nat.splits)
    moreover have "\<forall>j < length (leftSum # leftSums). \<forall>tot comb.
        ?off ((leftSum # leftSums) ! j) = Some (tot, comb) \<longrightarrow> tot \<le> bestSum"
      using head rest i(3) by (fastforce simp: nth_Cons split: nat.splits)
    ultimately show ?thesis
      by blast
  qed
qed


section \<open>The selection is feasible\<close>







section \<open>The selection is optimal\<close>



section \<open>optimizeRow on valid rows\<close>








section \<open>optimizeAllRows\<close>

text \<open>
  C5. For every sequence of rows optimizeAllRows returns a sequence of the same length
  whose elements are, in order, the results of optimizeRow on the input rows, and the
  originalRow of each element is the corresponding input row.
\<close>

theorem optimizeAllRows_pointwise:
  "\<exists>rs. optimizeAllRows rows = Inr rs
      \<and> length rs = length rows
      \<and> map Inr rs = map optimizeRow rows
      \<and> map originalRow rs = rows"
proof -
  obtain rs where rs: "optimizeAllRows rows = Inr rs" "map Inr rs = map optimizeRow rows"
    using optimizeAllRows_map by blast
  have len: "length rs = length rows"
    using rs(2) by (rule map_eq_imp_length_eq)
  have "map originalRow rs = rows"
  proof (rule nth_equalityI)
    show "length (map originalRow rs) = length rows"
      using len by simp
  next
    fix i assume "i < length (map originalRow rs)"
    then have i: "i < length rs" "i < length rows"
      using len by simp_all
    obtain r where r: "optimizeRow (rows ! i) = Inr r" "originalRow r = rows ! i"
      using optimizeRow_returns by blast
    have "map Inr rs ! i = map optimizeRow rows ! i"
      using rs(2) by simp
    then have "rs ! i = r"
      using i r(1) by simp
    then show "map originalRow rs ! i = rows ! i"
      using i r(2) by simp
  qed
  then show ?thesis
    using rs len by blast
qed

section \<open>Rows that violate the input invariants\<close>




section \<open>validateRow\<close>



section \<open>Totality\<close>

text \<open>
  C9. optimizeRow returns a result for every row, valid or not, and never raises; the
  binary search of findBestSum reads the array only inside its bounds, so findBestSum
  returns an entry of its list, or the zero pair when the list is empty.
\<close>

theorem optimizeRow_total:
  "(\<exists>r. optimizeRow row = Inr r)
   \<and> (\<exists>p. findBestSum sortedSums target = Inr p
          \<and> (p \<in> set sortedSums \<or> sortedSums = [] \<and> p = \<lparr>sum_entry = 0, subset_entry = []\<rparr>))
   \<and> (\<exists>b. search_loop sortedSums target 0 (int (length sortedSums) - 1) 0 = Inr b
          \<and> 0 \<le> b \<and> (b < int (length sortedSums) \<or> sortedSums = []))"
proof -
  have "\<exists>b. search_loop sortedSums target 0 (int (length sortedSums) - 1) 0 = Inr b
          \<and> 0 \<le> b \<and> (b < int (length sortedSums) \<or> sortedSums = [])"
  proof (cases "sortedSums = []")
    case True
    then show ?thesis
      by (simp add: search_loop.simps)
  next
    case False
    then have "\<exists>b. search_loop sortedSums target 0 (int (length sortedSums) - 1) 0 = Inr b
            \<and> 0 \<le> b \<and> b < int (length sortedSums)"
      by (intro search_loop_in_range) simp_all
    then show ?thesis
      by blast
  qed
  then show ?thesis
    using optimizeRow_returns[of row] findBestSum_returns[of sortedSums target] by blast
qed

section \<open>findBestSum on lists where no entry qualifies\<close>


section \<open>generateAllSubsetSums\<close>

lemma mask_of_index_set:
  "\<exists>m::nat. m < 2 ^ k \<and> (\<forall>i < k. bit m i \<longleftrightarrow> i \<in> I)"
proof (induction k arbitrary: I)
  case 0
  then show ?case by simp
next
  case (Suc k)
  obtain m :: nat where m: "m < 2 ^ k" "\<forall>i < k. bit m i \<longleftrightarrow> i \<in> {j. Suc j \<in> I}"
    using Suc.IH by blast
  define m' where "m' = 2 * m + (if 0 \<in> I then 1 else 0)"
  have "m' < 2 ^ Suc k"
    using m(1) by (simp add: m'_def)
  moreover have "bit m' i \<longleftrightarrow> i \<in> I" if "i < Suc k" for i
  proof (cases i)
    case 0
    then show ?thesis
      by (simp add: m'_def bit_0)
  next
    case (Suc j)
    then have "bit m' i \<longleftrightarrow> bit m j"
      by (simp add: m'_def bit_Suc)
    then show ?thesis
      using m(2) that Suc by simp
  qed
  ultimately show ?case
    by blast
qed

lemma mask_unique:
  fixes m m' :: nat
  assumes "m < 2 ^ k" "m' < 2 ^ k" "\<forall>i < k. bit m i \<longleftrightarrow> bit m' i"
  shows "m = m'"
proof (rule bit_eqI)
  fix i
  show "bit m i \<longleftrightarrow> bit m' i"
  proof (cases "i < k")
    case True
    then show ?thesis
      using assms(3) by simp
  next
    case False
    then have "(2::nat) ^ k \<le> 2 ^ i"
      by (simp add: power_increasing)
    then have "m < 2 ^ i" "m' < 2 ^ i"
      using assms(1,2) by linarith+
    then show ?thesis
      by (simp add: bit_iff_odd)
  qed
qed

text \<open>
  C4, for lists of at most 30 numbers. generateAllSubsetSums produces exactly \<open>2 ^ k\<close>
  entries; the entry at position \<open>m\<close> holds the values at the positions whose bit is set
  in the mask \<open>m\<close>, in order, and their sum; and every set of positions is the
  selection of exactly one mask, so that equal values at different positions are never
  merged.
\<close>

theorem generateAllSubsetSums_masks:
  assumes "length numbers \<le> 30"
  shows "length (generateAllSubsetSums numbers) = 2 ^ length numbers
     \<and> (\<forall>m < 2 ^ length numbers.
          generateAllSubsetSums numbers ! m
            = \<lparr>sum_entry = (\<Sum>i | i < length numbers \<and> bit m i. numbers ! i),
               subset_entry = nths numbers {i. bit m i}\<rparr>)
     \<and> (\<forall>I. I \<subseteq> {..<length numbers} \<longrightarrow>
          (\<exists>!m::nat. m < 2 ^ length numbers \<and> {i. i < length numbers \<and> bit m i} = I))"
proof (intro conjI allI impI)
  show "length (generateAllSubsetSums numbers) = 2 ^ length numbers"
    by (simp add: generateAllSubsetSums_small[OF assms])
next
  fix m :: nat assume "m < 2 ^ length numbers"
  then show "generateAllSubsetSums numbers ! m
            = \<lparr>sum_entry = (\<Sum>i | i < length numbers \<and> bit m i. numbers ! i),
               subset_entry = nths numbers {i. bit m i}\<rparr>"
    by (simp add: generateAllSubsetSums_small[OF assms] sum_list_nths)
next
  fix I assume I: "I \<subseteq> {..<length numbers}"
  obtain m :: nat where m: "m < 2 ^ length numbers" "\<forall>i < length numbers. bit m i \<longleftrightarrow> i \<in> I"
    using mask_of_index_set by blast
  have sel: "{i. i < length numbers \<and> bit m i} = I"
    using m(2) I by auto
  show "\<exists>!m::nat. m < 2 ^ length numbers \<and> {i. i < length numbers \<and> bit m i} = I"
  proof (rule ex1I[of _ m])
    show "m < 2 ^ length numbers \<and> {i. i < length numbers \<and> bit m i} = I"
      using m(1) sel by simp
  next
    fix m' :: nat
    assume m': "m' < 2 ^ length numbers \<and> {i. i < length numbers \<and> bit m' i} = I"
    then have "\<forall>i < length numbers. bit m' i \<longleftrightarrow> bit m i"
      using sel by blast
    then show "m' = m"
      using m' m(1) by (intro mask_unique[of m' "length numbers" m]) simp_all
  qed
qed

theorem generateAllSubsetSums_masks_witness:
  "length [3, 3 :: real] \<le> 30
   \<and> length (generateAllSubsetSums [3, 3]) = 4
   \<and> generateAllSubsetSums [3, 3] ! 1 = \<lparr>sum_entry = 3, subset_entry = [3]\<rparr>
   \<and> generateAllSubsetSums [3, 3] ! 2 = \<lparr>sum_entry = 3, subset_entry = [3]\<rparr>
   \<and> generateAllSubsetSums [3, 3] ! 3 = \<lparr>sum_entry = 6, subset_entry = [3, 3]\<rparr>"
proof -
  have h: "length [3, 3 :: real] \<le> 30"
    by simp
  have ent: "generateAllSubsetSums [3, 3] ! m
      = \<lparr>sum_entry = sum_list (nths [3, 3] {i. bit m i}), subset_entry = nths [3, 3] {i. bit m i}\<rparr>"
    if "m < 4" for m :: nat
    using generateAllSubsetSums_masks[OF h] that by (simp add: sum_list_nths)
  have "length (generateAllSubsetSums [3, 3]) = 4"
    using generateAllSubsetSums_masks[OF h] by simp
  moreover have "generateAllSubsetSums [3, 3] ! 1 = \<lparr>sum_entry = 3, subset_entry = [3]\<rparr>"
    using ent[of 1] by (simp add: nths_Cons bit_Suc bit_0)
  moreover have "generateAllSubsetSums [3, 3] ! 2 = \<lparr>sum_entry = 3, subset_entry = [3]\<rparr>"
    using ent[of 2] by (simp add: nths_Cons bit_Suc bit_0)
  moreover have "generateAllSubsetSums [3, 3] ! 3 = \<lparr>sum_entry = 6, subset_entry = [3, 3]\<rparr>"
    using ent[of 3] by (simp add: nths_Cons bit_Suc bit_0)
  ultimately show ?thesis
    using h by blast
qed

text \<open>
  The claim for every list fails at 31 numbers: \<^verbatim>\<open>1 << 31\<close> is negative as a 32-bit
  integer, the loop over the masks is not entered and the result is empty.
\<close>

theorem generateAllSubsetSums_31_counterexample:
  "generateAllSubsetSums (replicate 31 1) = []"
  by (simp add: generateAllSubsetSums_any shl1_def)

section \<open>The tie-break of the combination loop\<close>

text \<open>
  C6. The combination loop replaces the tracked best only by an offered combination with a
  strictly greater total. So either the loop ends with the state it started from, and no
  left entry offered a greater total; or the result is the combination offered by a left
  entry \<open>i\<close> whose total is greater than the starting one, every entry before \<open>i\<close>
  offered strictly less, and no entry offered more: the first entry in the order of
  the left enumeration that reaches the maximal total determines the subset, and later
  entries with the same total do not replace it.
\<close>

theorem combine_loop_first_maximum_wins:
  assumes "combine_loop rightSums target leftSums (bestSum0, bestCombination0)
             = Inr (bestSum, bestCombination)"
  shows "bestSum = bestSum0 \<and> bestCombination = bestCombination0
           \<and> (\<forall>j < length leftSums. \<forall>tot comb.
                 offered rightSums target (leftSums ! j) = Some (tot, comb) \<longrightarrow> tot \<le> bestSum0)
         \<or> (\<exists>i < length leftSums.
               offered rightSums target (leftSums ! i) = Some (bestSum, bestCombination)
               \<and> bestSum0 < bestSum
               \<and> (\<forall>j < i. \<forall>tot comb.
                     offered rightSums target (leftSums ! j) = Some (tot, comb) \<longrightarrow> tot < bestSum)
               \<and> (\<forall>j < length leftSums. \<forall>tot comb.
                     offered rightSums target (leftSums ! j) = Some (tot, comb) \<longrightarrow> tot \<le> bestSum))"
  using assms by (rule combine_loop_first_max)

theorem combine_loop_first_maximum_wins_witness:
  "combine_loop
     [\<lparr>sum_entry = 0, subset_entry = []\<rparr>, \<lparr>sum_entry = 2, subset_entry = [2]\<rparr>,
      \<lparr>sum_entry = 3, subset_entry = [3]\<rparr>, \<lparr>sum_entry = 5, subset_entry = [2, 3]\<rparr>]
     3 [\<lparr>sum_entry = 0, subset_entry = []\<rparr>, \<lparr>sum_entry = 1, subset_entry = [1]\<rparr>] (0, [])
     = Inr (3, [3])
   \<and> offered
       [\<lparr>sum_entry = 0, subset_entry = []\<rparr>, \<lparr>sum_entry = 2, subset_entry = [2]\<rparr>,
        \<lparr>sum_entry = 3, subset_entry = [3]\<rparr>, \<lparr>sum_entry = 5, subset_entry = [2, 3]\<rparr>]
       3 \<lparr>sum_entry = 1, subset_entry = [1]\<rparr> = Some (3, [1, 2])
   \<and> offered
       [\<lparr>sum_entry = 0, subset_entry = []\<rparr>, \<lparr>sum_entry = 2, subset_entry = [2]\<rparr>,
        \<lparr>sum_entry = 3, subset_entry = [3]\<rparr>, \<lparr>sum_entry = 5, subset_entry = [2, 3]\<rparr>]
       3 \<lparr>sum_entry = 0, subset_entry = []\<rparr> = Some (3, [3])"
proof -
  define rs where "rs = [\<lparr>sum_entry = 0, subset_entry = []\<rparr>, \<lparr>sum_entry = 2, subset_entry = [2]\<rparr>,
      \<lparr>sum_entry = 3, subset_entry = [3]\<rparr>, \<lparr>sum_entry = 5, subset_entry = [2, 3]\<rparr>]"
  define ls where "ls = [\<lparr>sum_entry = 0, subset_entry = []\<rparr>, \<lparr>sum_entry = 1, subset_entry = [1]\<rparr>]"
  have run: "combine_loop rs 3 ls (0, []) = Inr (3, [3])"
    unfolding rs_def ls_def by code_simp
  have later: "offered rs 3 (ls ! 1) = Some (3, [1, 2])"
    unfolding rs_def ls_def by code_simp
  have "\<exists>i < length ls. offered rs 3 (ls ! i) = Some (3, [3])"
    using combine_loop_first_maximum_wins[OF run] by auto
  then obtain i where i: "i < length ls" "offered rs 3 (ls ! i) = Some (3, [3])"
    by blast
  have "i \<noteq> 1"
    using i(2) later by auto
  then have "i = 0"
    using i(1) by (simp add: ls_def)
  then have first: "offered rs 3 (ls ! 0) = Some (3, [3])"
    using i(2) by simp
  show ?thesis
    using run later first unfolding rs_def ls_def by simp
qed

section \<open>What optimizeRow leaves unchanged\<close>


lemma frame_lengths:
  assumes "frame h0 h"
  shows "length (number_arrays h0) \<le> length (number_arrays h)"
    and "length (sum_arrays h0) \<le> length (sum_arrays h)"
    and "length (mutated_numbers h0) \<le> length (mutated_numbers h)"
    and "length (mutated_sums h0) \<le> length (mutated_sums h)"
proof -
  have le: "length ys \<le> length xs" if "take (length ys) xs = ys" for xs ys :: "'a list"
  proof -
    have "length (take (length ys) xs) = length ys"
      by (simp only: that)
    then show ?thesis
      by simp
  qed
  show "length (number_arrays h0) \<le> length (number_arrays h)"
    "length (sum_arrays h0) \<le> length (sum_arrays h)"
    "length (mutated_numbers h0) \<le> length (mutated_numbers h)"
    "length (mutated_sums h0) \<le> length (mutated_sums h)"
    using assms by (simp_all add: frame_def le)
qed















section \<open>The store model computes what the value model computes\<close>

lemma frame_sums_at:
  assumes "frame h h'" "a < length (sum_arrays h)"
  shows "sums_at h' a = sums_at h a"
proof -
  have "length (sum_arrays h) \<le> length (sum_arrays h')"
    using assms(1) by (rule frame_lengths)
  moreover have "take (length (sum_arrays h)) (sum_arrays h') ! a = sum_arrays h ! a"
    using assms(1) by (simp add: frame_def)
  ultimately show ?thesis
    using assms(2) by (simp add: sums_at_def)
qed

lemma take_length_le:
  assumes "take (length xs) ys = xs"
  shows "length xs \<le> length ys"
proof -
  have "length (take (length xs) ys) = length xs"
    by (simp only: assms)
  then show ?thesis
    by simp
qed

lemma take_take_prefix:
  assumes "take (length xs) ys = xs" "take (length ys) zs = ys"
  shows "take (length xs) zs = xs"
proof -
  have "length xs \<le> length ys"
    using assms(1) by (rule take_length_le)
  then have "take (length xs) (take (length ys) zs) = take (length xs) zs"
    by (simp add: min_def)
  then show ?thesis
    by (simp only: assms)
qed

lemma drop_fresh:
  fixes xs ys zs :: "nat list"
  assumes "take (length xs) ys = xs" "take (length ys) zs = ys" "n0 \<le> n1"
    "list_all (\<lambda>a. n0 \<le> a) (drop (length xs) ys)"
    "list_all (\<lambda>a. n1 \<le> a) (drop (length ys) zs)"
  shows "list_all (\<lambda>a. n0 \<le> a) (drop (length xs) zs)"
proof -
  have len: "length xs \<le> length ys"
    using assms(1) by (rule take_length_le)
  have "drop (length xs) (ys @ drop (length ys) zs)
      = drop (length xs) ys @ drop (length ys) zs"
    using len by simp
  moreover have "ys @ drop (length ys) zs = zs"
    using append_take_drop_id[of "length ys" zs] by (simp only: assms(2))
  ultimately have "drop (length xs) zs = drop (length xs) ys @ drop (length ys) zs"
    by simp
  moreover have "list_all (\<lambda>a. n0 \<le> a) (drop (length ys) zs)"
    using assms(3,5) by (auto simp: list_all_iff)
  ultimately show ?thesis
    using assms(4) by simp
qed

lemma frame_trans:
  assumes "frame h0 h1" "frame h1 h2"
  shows "frame h0 h2"
proof -
  note l = frame_lengths[OF assms(1)] frame_lengths[OF assms(2)]
  have a: "take (length (number_arrays h0)) (number_arrays h1) = number_arrays h0"
    "take (length (sum_arrays h0)) (sum_arrays h1) = sum_arrays h0"
    "row_objects h1 = row_objects h0"
    "take (length (mutated_numbers h0)) (mutated_numbers h1) = mutated_numbers h0"
    "list_all (\<lambda>a. length (number_arrays h0) \<le> a)
          (drop (length (mutated_numbers h0)) (mutated_numbers h1))"
    "take (length (mutated_sums h0)) (mutated_sums h1) = mutated_sums h0"
    "list_all (\<lambda>a. length (sum_arrays h0) \<le> a)
          (drop (length (mutated_sums h0)) (mutated_sums h1))"
    using assms(1) unfolding frame_def by blast+
  have b: "take (length (number_arrays h1)) (number_arrays h2) = number_arrays h1"
    "take (length (sum_arrays h1)) (sum_arrays h2) = sum_arrays h1"
    "row_objects h2 = row_objects h1"
    "take (length (mutated_numbers h1)) (mutated_numbers h2) = mutated_numbers h1"
    "list_all (\<lambda>a. length (number_arrays h1) \<le> a)
          (drop (length (mutated_numbers h1)) (mutated_numbers h2))"
    "take (length (mutated_sums h1)) (mutated_sums h2) = mutated_sums h1"
    "list_all (\<lambda>a. length (sum_arrays h1) \<le> a)
          (drop (length (mutated_sums h1)) (mutated_sums h2))"
    using assms(2) unfolding frame_def by blast+
  show ?thesis
    unfolding frame_def
  proof (intro conjI)
    show "take (length (number_arrays h0)) (number_arrays h2) = number_arrays h0"
      using a(1) b(1) by (rule take_take_prefix)
    show "take (length (sum_arrays h0)) (sum_arrays h2) = sum_arrays h0"
      using a(2) b(2) by (rule take_take_prefix)
    show "row_objects h2 = row_objects h0"
      using a(3) b(3) by simp
    show "take (length (mutated_numbers h0)) (mutated_numbers h2) = mutated_numbers h0"
      using a(4) b(4) by (rule take_take_prefix)
    show "take (length (mutated_sums h0)) (mutated_sums h2) = mutated_sums h0"
      using a(6) b(6) by (rule take_take_prefix)
    show "list_all (\<lambda>a. length (number_arrays h0) \<le> a)
        (drop (length (mutated_numbers h0)) (mutated_numbers h2))"
      using a(4) b(4) l(1) a(5) b(5) by (rule drop_fresh)
    show "list_all (\<lambda>a. length (sum_arrays h0) \<le> a)
        (drop (length (mutated_sums h0)) (mutated_sums h2))"
      using a(6) b(6) l(2) a(7) b(7) by (rule drop_fresh)
  qed
qed











section \<open>optimizeRow does not change its input\<close>



end
